theory Spec2Isabelle
  imports
    Main
    "HOL-Library.AList"
    "HOL-Library.Char_ord"
    "HOL-Library.List_Lexorder"
    "HOL-Library.Product_Lexorder"
begin

section \<open>The visits-per-member report: a model of backend/logic.py\<close>

text \<open>
  The pipeline of \<^verbatim>\<open>backend/logic.py\<close> loads two CSV sources, joins the visits with the
  members on the barcode, groups the visit ids per (member\_id, barcode), and derives a
  ranking, two counters and a tabular report.

  Conventions of the model.
  \<^item> A Python \<^verbatim>\<open>str\<close> is a \<^typ>\<open>string\<close>; a \<^typ>\<open>char\<close> stands for the code point of the same
    number, so that the strings of the model are the Python strings of code points 0 to
    255. Strings compare as Python compares them: lexicographically by code point
    (\<open>Char_ord\<close>, \<open>List_Lexorder\<close>); tuples compare lexicographically
    (\<open>Product_Lexorder\<close>). The code uses of a character only its order, whether it is
    whitespace, and whether it is the character of a literal.
  \<^item> A Python \<^verbatim>\<open>dict\<close> is an association list in insertion order. Assigning to a key that
    is present replaces the value where it stands, assigning to a new key appends the
    pair: this is \<^const>\<open>AList.update\<close>. \<^verbatim>\<open>d.get(k)\<close> is \<^term>\<open>map_of d k\<close>. A dictionary
    never holds a key twice, which is \<^term>\<open>distinct (map fst d)\<close>.
  \<^item> \<^verbatim>\<open>logging.warning\<close> appends a \<open>warning\<close> to a log that the functions return next to
    their result.
  \<^item> A Python exception is a value \<open>Inl e\<close> of the result.
  \<^item> The files are read by \<^verbatim>\<open>csv.DictReader\<close> and written by \<^verbatim>\<open>f.write\<close>. The model of
    \<^verbatim>\<open>load_members\<close> starts from what its file gives: the failure to open it, or the rows
    the reader yields and the way the reader ends, exhausted or raising. The model of
    \<^verbatim>\<open>load_visits\<close> gives the sequence that the function returns, which it does when the
    reader has yielded all its rows; the model of \<^verbatim>\<open>write_output\<close> gives the text written.
\<close>

subsection \<open>Data model\<close>

datatype Visit = Visit (visit_id: string) (barcode: string) (reservation_id: "string option")

type_synonym ('k, 'v) dict = "('k \<times> 'v) list"

text \<open>A row of \<^verbatim>\<open>csv.DictReader\<close>: \<open>row k\<close> is what \<^verbatim>\<open>row.get(k)\<close> returns, \<open>None\<close> for a column
  that the header does not have or that the line is too short for.\<close>

type_synonym csv_row = "string \<rightharpoonup> string"

type_synonym grouped = "(string \<times> string, string list) dict"

text \<open>The exceptions of the model: a subscript on a missing key; a file that cannot be
  opened; and the two that \<^verbatim>\<open>csv.DictReader\<close> raises while it reads.\<close>

datatype py_error = KeyError | OSError | UnicodeDecodeError | CsvError

datatype warning =
    Invalid_member_row nat
  | Duplicate_barcode nat string string string
  | Invalid_visit_row nat
  | Missing_barcode string
  | Unknown_barcode string string

record summary =
  generated_at :: string
  total_valid_visits :: int
  total_walk_ins :: int
  top_members :: "(string \<times> int) list"

subsection \<open>Python primitives\<close>

text \<open>\<^verbatim>\<open>str.isspace\<close> on the code points below 256: TAB, LF, VT, FF, CR, FS, GS, RS, US,
  SPACE, NEL (0x85) and NBSP (0xA0).\<close>

definition isspace :: "char \<Rightarrow> bool" where
  "isspace c = ((of_char c :: nat) \<in> {9, 10, 11, 12, 13, 28, 29, 30, 31, 32, 133, 160})"

text \<open>\<^verbatim>\<open>s.strip()\<close>\<close>

definition strip :: "string \<Rightarrow> string" where
  "strip s = rev (dropWhile isspace (rev (dropWhile isspace s)))"

text \<open>\<^verbatim>\<open>(row.get(k) or "")\<close>\<close>

definition get_or_empty :: "csv_row \<Rightarrow> string \<Rightarrow> string" where
  "get_or_empty row k = (case row k of None \<Rightarrow> [] | Some s \<Rightarrow> s)"

text \<open>\<^verbatim>\<open>d[k]\<close> of a \<^verbatim>\<open>defaultdict\<close> whose factory returns \<open>dflt\<close>; the key that was missing is
  stored by the assignment that follows each such read in the source.\<close>

definition get_default :: "('k, 'v) dict \<Rightarrow> 'k \<Rightarrow> 'v \<Rightarrow> 'v" where
  "get_default d k dflt = (case map_of d k of None \<Rightarrow> dflt | Some v \<Rightarrow> v)"

text \<open>\<^verbatim>\<open>sep.join(xs)\<close>\<close>

fun join :: "string \<Rightarrow> string list \<Rightarrow> string" where
  "join sep [] = []"
| "join sep [x] = x"
| "join sep (x # y # ys) = x @ sep @ join sep (y # ys)"

text \<open>\<^verbatim>\<open>xs[:n]\<close>: a negative \<open>n\<close> counts from the end, and the bound is clipped to the list.\<close>

definition slice_upto :: "'a list \<Rightarrow> int \<Rightarrow> 'a list" where
  "slice_upto xs n = (if n < 0 then take (length xs - nat (- n)) xs else take (nat n) xs)"

text \<open>\<^verbatim>\<open>str(n)\<close> of an integer, for the f-strings of \<^verbatim>\<open>print_top_members\<close>.\<close>

fun str_nat :: "nat \<Rightarrow> string" where
  "str_nat n = (if n < 10 then [char_of (48 + n)] else str_nat (n div 10) @ [char_of (48 + n mod 10)])"

declare str_nat.simps [simp del]

definition str_int :: "int \<Rightarrow> string" where
  "str_int i = (if i < 0 then CHR ''-'' # str_nat (nat (- i)) else str_nat (nat i))"

subsection \<open>load\_members\<close>

text \<open>What \<^verbatim>\<open>load_members\<close> gets from its file. Either \<^verbatim>\<open>path.open\<close> raises (L56): the
  file is missing or unreadable. Or the file opens and \<^verbatim>\<open>csv.DictReader\<close> yields rows to
  the loop of L60 until it is exhausted (\<open>None\<close>) or itself raises (\<open>Some e\<close>: a
  \<^verbatim>\<open>csv.Error\<close> on a field that is too long, a \<^verbatim>\<open>UnicodeDecodeError\<close> on bytes that are not
  UTF-8), at its first read or after any number of rows.\<close>

datatype csv_file = Unopened py_error | Opened "csv_row list" "py_error option"

text \<open>The loop of \<^verbatim>\<open>load_members\<close> (L60-79), with the line number of \<^verbatim>\<open>enumerate\<close>, the
  dictionary \<^verbatim>\<open>barcode_to_member\<close> and the log as state; \<open>ending\<close> is how the reader ends
  after the rows. The subscript \<^verbatim>\<open>barcode_to_member[barcode]\<close> of L74 raises \<^verbatim>\<open>KeyError\<close> on
  a missing key. The result is the mapping returned or the exception raised, and the
  warnings logged until then.\<close>

fun load_members_loop ::
  "nat \<Rightarrow> csv_row list \<Rightarrow> py_error option \<Rightarrow> (string, string) dict \<Rightarrow> warning list
    \<Rightarrow> (py_error + (string, string) dict) \<times> warning list" where
  "load_members_loop line_no [] ending barcode_to_member log =
     (case ending of
        None \<Rightarrow> (Inr barcode_to_member, log)
      | Some e \<Rightarrow> (Inl e, log))"
| "load_members_loop line_no (row # rows) ending barcode_to_member log =
     (let member_id = strip (get_or_empty row ''member_id'');
          bc = strip (get_or_empty row ''barcode'')
      in if member_id = [] \<or> bc = [] then
           load_members_loop (Suc line_no) rows ending barcode_to_member
             (log @ [Invalid_member_row line_no])
         else if bc \<in> set (map fst barcode_to_member) then
           (case map_of barcode_to_member bc of
              None \<Rightarrow> (Inl KeyError, log)
            | Some existing \<Rightarrow>
                load_members_loop (Suc line_no) rows ending barcode_to_member
                  (log @ [Duplicate_barcode line_no bc existing member_id]))
         else
           load_members_loop (Suc line_no) rows ending
             (AList.update bc member_id barcode_to_member) log)"

fun load_members :: "csv_file \<Rightarrow> (py_error + (string, string) dict) \<times> warning list" where
  "load_members (Unopened e) = (Inl e, [])"
| "load_members (Opened rows ending) = load_members_loop 2 rows ending [] []"

subsection \<open>load\_visits\<close>

text \<open>The loop of \<^verbatim>\<open>load_visits\<close> (L97-109); \<^verbatim>\<open>x or None\<close> turns the empty string into
  \<open>None\<close>.\<close>

fun load_visits_loop ::
  "nat \<Rightarrow> csv_row list \<Rightarrow> Visit list \<Rightarrow> warning list \<Rightarrow> Visit list \<times> warning list" where
  "load_visits_loop line_no [] visits log = (visits, log)"
| "load_visits_loop line_no (row # rows) visits log =
     (let vid = strip (get_or_empty row ''visit_id'');
          bc = strip (get_or_empty row ''barcode'');
          rid = (let r = strip (get_or_empty row ''reservation_id'')
                 in if r = [] then None else Some r)
      in if vid = [] then
           load_visits_loop (Suc line_no) rows visits (log @ [Invalid_visit_row line_no])
         else
           load_visits_loop (Suc line_no) rows (visits @ [Visit vid bc rid]) log)"

definition load_visits :: "csv_row list \<Rightarrow> Visit list \<times> warning list" where
  "load_visits rows = load_visits_loop 2 rows [] []"

subsection \<open>validate\_and\_group\_visits\<close>

text \<open>The loop of \<^verbatim>\<open>validate_and_group_visits\<close> (L132-151). \<^verbatim>\<open>not v.barcode\<close> holds of the
  empty string; \<^verbatim>\<open>not member_id\<close> holds of \<^verbatim>\<open>None\<close> (the key is missing) and of the empty
  string. \<^verbatim>\<open>grouped[k].append(x)\<close> on the \<^verbatim>\<open>defaultdict(list)\<close> stores the old list of \<open>k\<close>,
  or the empty list, extended by \<open>x\<close>.\<close>

fun validate_loop ::
  "(string, string) dict \<Rightarrow> Visit list \<Rightarrow> grouped \<Rightarrow> int \<Rightarrow> warning list
    \<Rightarrow> grouped \<times> int \<times> warning list" where
  "validate_loop members [] grouped walk_in_count log = (grouped, walk_in_count, log)"
| "validate_loop members (v # visits) grouped walk_in_count log =
     (if barcode v = [] then
        validate_loop members visits grouped walk_in_count (log @ [Missing_barcode (visit_id v)])
      else
        (case map_of members (barcode v) of
           None \<Rightarrow>
             validate_loop members visits grouped walk_in_count
               (log @ [Unknown_barcode (visit_id v) (barcode v)])
         | Some member_id \<Rightarrow>
             if member_id = [] then
               validate_loop members visits grouped walk_in_count
                 (log @ [Unknown_barcode (visit_id v) (barcode v)])
             else
               validate_loop members visits
                 (AList.update (member_id, barcode v)
                    (get_default grouped (member_id, barcode v) [] @ [visit_id v]) grouped)
                 (if reservation_id v = None then walk_in_count + 1 else walk_in_count)
                 log))"

definition validate_and_group_visits ::
  "(string, string) dict \<Rightarrow> Visit list \<Rightarrow> grouped \<times> int \<times> warning list" where
  "validate_and_group_visits members visits = validate_loop members visits [] 0 []"

subsection \<open>write\_output\<close>

text \<open>The loop of \<^verbatim>\<open>write_output\<close> (L168-171) over the sorted keys, with the text written so
  far as state. The subscript \<^verbatim>\<open>grouped_data[(member_id, barcode)]\<close> raises \<^verbatim>\<open>KeyError\<close> on
  a missing key.\<close>

definition output_row :: "string \<Rightarrow> string \<Rightarrow> string list \<Rightarrow> string" where
  "output_row mid bc visit_ids =
     (let visits_repr = ''['' @ join '', '' visit_ids @ '']''
      in mid @ '','' @ bc @ '','' @ visits_repr @ [CHR 0x0A])"

fun write_rows :: "grouped \<Rightarrow> (string \<times> string) list \<Rightarrow> string \<Rightarrow> py_error + string" where
  "write_rows grouped_data [] f = Inr f"
| "write_rows grouped_data ((mid, bc) # keys) f =
     (case map_of grouped_data (mid, bc) of
        None \<Rightarrow> Inl KeyError
      | Some visit_ids \<Rightarrow> write_rows grouped_data keys (f @ output_row mid bc visit_ids))"

definition write_output :: "grouped \<Rightarrow> py_error + string" where
  "write_output grouped_data =
     write_rows grouped_data (sort (map fst grouped_data))
       (''member_id,barcode,visits'' @ [CHR 0x0A])"

subsection \<open>build\_summary and print\_top\_members\<close>

text \<open>The loop of \<^verbatim>\<open>build_summary\<close> (L216-219) over \<^verbatim>\<open>grouped_data.items()\<close>.\<close>

fun summary_loop ::
  "grouped \<Rightarrow> (string, int) dict \<Rightarrow> int \<Rightarrow> (string, int) dict \<times> int" where
  "summary_loop [] visits_per_member total_visits = (visits_per_member, total_visits)"
| "summary_loop (((mid, bc), visit_ids) # items) visits_per_member total_visits =
     (let count = int (length visit_ids)
      in summary_loop items
           (AList.update mid (get_default visits_per_member mid 0 + count) visits_per_member)
           (total_visits + count))"

text \<open>\<^verbatim>\<open>sorted(visits_per_member.items(), key=lambda item: (-item[1], item[0]))\<close>; Python's sort
  is stable, as \<^const>\<open>sort_key\<close> is.\<close>

definition rank :: "(string, int) dict \<Rightarrow> (string \<times> int) list" where
  "rank visits_per_member = sort_key (\<lambda>item. (- snd item, fst item)) visits_per_member"

text \<open>\<^verbatim>\<open>build_summary\<close>; \<open>now\<close> is the reading of the clock, \<^verbatim>\<open>datetime.now(timezone.utc).isoformat()\<close>.\<close>

definition build_summary :: "string \<Rightarrow> grouped \<Rightarrow> int \<Rightarrow> int \<Rightarrow> summary" where
  "build_summary now grouped_data walk_in_count top_n =
     (let (visits_per_member, total_visits) = summary_loop grouped_data [] 0;
          top = slice_upto (rank visits_per_member) top_n
      in \<lparr> generated_at = now,
           total_valid_visits = total_visits,
           total_walk_ins = walk_in_count,
           top_members = top \<rparr>)"

text \<open>The loop of \<^verbatim>\<open>print_top_members\<close> (L184-185).\<close>

fun visits_per_member_loop :: "grouped \<Rightarrow> (string, int) dict \<Rightarrow> (string, int) dict" where
  "visits_per_member_loop [] visits_per_member = visits_per_member"
| "visits_per_member_loop (((mid, bc), visit_ids) # items) visits_per_member =
     visits_per_member_loop items
       (AList.update mid (get_default visits_per_member mid 0 + int (length visit_ids))
          visits_per_member)"

text \<open>\<^verbatim>\<open>print_top_members\<close>: the lines printed, in order.\<close>

definition print_top_members :: "grouped \<Rightarrow> int \<Rightarrow> string list" where
  "print_top_members grouped_data top_n =
     (let ranking = slice_upto (rank (visits_per_member_loop grouped_data [])) top_n
      in [''--------------------------------------------'',
          ''Top '' @ str_int top_n @ '' members by visits:'']
         @ map (\<lambda>(mid, count). mid @ '', '' @ str_int count) ranking
         @ [''--------------------------------------------''])"

section \<open>Notions used to state the properties\<close>

subsection \<open>The join\<close>

text \<open>A visit passes both barcode checks of the loop of \<^verbatim>\<open>validate_and_group_visits\<close> when
  neither guard fires: \<^verbatim>\<open>not v.barcode\<close> (L133) and \<^verbatim>\<open>not member_id\<close> (L141).\<close>

definition passes_barcode_checks :: "(string, string) dict \<Rightarrow> Visit \<Rightarrow> bool" where
  "passes_barcode_checks members v =
     (barcode v \<noteq> [] \<and> (case map_of members (barcode v) of None \<Rightarrow> False | Some m \<Rightarrow> m \<noteq> []))"

text \<open>The barcode of a visit is non-empty and a key of the member mapping.\<close>

definition has_known_barcode :: "(string, string) dict \<Rightarrow> Visit \<Rightarrow> bool" where
  "has_known_barcode members v = (barcode v \<noteq> [] \<and> barcode v \<in> fst ` set members)"

text \<open>A walk-in among the visits that pass: the reservation is absent.\<close>

definition is_walk_in :: "(string, string) dict \<Rightarrow> Visit \<Rightarrow> bool" where
  "is_walk_in members v = (passes_barcode_checks members v \<and> reservation_id v = None)"

text \<open>The GroupKey under which a visit that passes is filed (L148).\<close>

definition group_key :: "(string, string) dict \<Rightarrow> Visit \<Rightarrow> string \<times> string" where
  "group_key members v = (get_default members (barcode v) [], barcode v)"

text \<open>The visits that pass and are filed under the key \<open>k\<close>.\<close>

definition filed_under :: "(string, string) dict \<Rightarrow> string \<times> string \<Rightarrow> Visit \<Rightarrow> bool" where
  "filed_under members k v = (passes_barcode_checks members v \<and> group_key members v = k)"

text \<open>What the loop does with a visit that passes (L148), and what it logs for one that
  does not (L134, L142).\<close>

definition append_visit :: "(string, string) dict \<Rightarrow> Visit \<Rightarrow> grouped \<Rightarrow> grouped" where
  "append_visit members v g =
     AList.update (group_key members v) (get_default g (group_key members v) [] @ [visit_id v]) g"

definition rejection :: "Visit \<Rightarrow> warning" where
  "rejection v = (if barcode v = [] then Missing_barcode (visit_id v)
                  else Unknown_barcode (visit_id v) (barcode v))"

text \<open>\<^verbatim>\<open>sum(len(v) for v in grouped.values())\<close>\<close>

definition sum_of_lengths :: "grouped \<Rightarrow> int" where
  "sum_of_lengths g = (\<Sum>(k, vs)\<leftarrow>g. int (length vs))"

subsection \<open>The ranking\<close>

text \<open>The total visit count of a member: the lengths of the sequences of all GroupKeys of
  this member\_id, added up.\<close>

definition member_total :: "grouped \<Rightarrow> string \<Rightarrow> int" where
  "member_total g m = (\<Sum>(k, vs)\<leftarrow>g. if fst k = m then int (length vs) else 0)"

text \<open>The order of the ranking on (member\_id, visit\_count): the greater count first, and
  of two equal counts the smaller member\_id first.\<close>

definition ranks_before :: "string \<times> int \<Rightarrow> string \<times> int \<Rightarrow> bool" where
  "ranks_before a b = (snd b < snd a \<or> (snd a = snd b \<and> fst a < fst b))"

subsection \<open>The loaders\<close>

text \<open>A field is empty or whitespace-only: this is when \<^verbatim>\<open>strip\<close> leaves nothing.\<close>

definition whitespace_only :: "string \<Rightarrow> bool" where
  "whitespace_only s = list_all isspace s"

text \<open>A string is trimmed: it neither starts nor ends with whitespace.\<close>

definition trimmed :: "string \<Rightarrow> bool" where
  "trimmed s = (s = [] \<or> (\<not> isspace (hd s) \<and> \<not> isspace (last s)))"

text \<open>The trimmed fields of a member row, and the rows that pass the check of L64: both
  fields are non-empty after trimming.\<close>

definition row_member_id :: "csv_row \<Rightarrow> string" where
  "row_member_id row = strip (get_or_empty row ''member_id'')"

definition row_barcode :: "csv_row \<Rightarrow> string" where
  "row_barcode row = strip (get_or_empty row ''barcode'')"

definition complete_member_row :: "csv_row \<Rightarrow> bool" where
  "complete_member_row row = (row_member_id row \<noteq> [] \<and> row_barcode row \<noteq> [])"

text \<open>The first row with the trimmed barcode \<open>b\<close>, and the first complete one.\<close>

definition first_row_with :: "string \<Rightarrow> csv_row list \<Rightarrow> csv_row option" where
  "first_row_with b rows = find (\<lambda>row. row_barcode row = b) rows"

definition first_complete_row_with :: "string \<Rightarrow> csv_row list \<Rightarrow> csv_row option" where
  "first_complete_row_with b rows =
     find (\<lambda>row. complete_member_row row \<and> row_barcode row = b) rows"

subsection \<open>Reading the tabular report back\<close>

text \<open>The repository has no reader of the report; the round trip is stated against the
  reader below, which undoes \<^verbatim>\<open>write_output\<close> line by line: the text is split at the line
  feeds; a line is split at its first two commas into member\_id, barcode and the bracketed
  list; the list, without its brackets, is split at the commas, and the blank that follows
  each comma is dropped.\<close>

text \<open>\<^verbatim>\<open>s.split(c)\<close> for a separator of one character.\<close>

fun split_on :: "char \<Rightarrow> string \<Rightarrow> string list" where
  "split_on c [] = [[]]"
| "split_on c (x # xs) =
     (if x = c then [] # split_on c xs
      else (case split_on c xs of [] \<Rightarrow> [[x]] | p # ps \<Rightarrow> (x # p) # ps))"

text \<open>The parts of \<open>s\<close> before and after the first \<open>c\<close>.\<close>

definition split_first :: "char \<Rightarrow> string \<Rightarrow> string \<times> string" where
  "split_first c s = (takeWhile (\<lambda>x. x \<noteq> c) s, drop 1 (dropWhile (\<lambda>x. x \<noteq> c) s))"

definition parse_visits :: "string \<Rightarrow> string list" where
  "parse_visits s =
     (case split_on CHR '','' (butlast (drop 1 s)) of [] \<Rightarrow> [] | p # ps \<Rightarrow> p # map (drop 1) ps)"

definition parse_row :: "string \<Rightarrow> (string \<times> string) \<times> string list" where
  "parse_row line =
     (let (mid, rest) = split_first CHR '','' line;
          (bc, visits) = split_first CHR '','' rest
      in ((mid, bc), parse_visits visits))"

definition reparse_output :: "string \<Rightarrow> grouped option" where
  "reparse_output text =
     (case split_on (CHR 0x0A) text of
        [] \<Rightarrow> None
      | header # lines \<Rightarrow>
          if header = ''member_id,barcode,visits'' \<and> lines \<noteq> [] \<and> last lines = []
          then Some (map parse_row (butlast lines)) else None)"

text \<open>A string that the reader takes for one field: it holds neither a comma nor a line
  feed. A grouping whose every member\_id, barcode and visit\_id is such a string, and whose
  every sequence is non-empty (as in the groupings of \<open>validate_and_group_visits\<close>).\<close>

definition plain :: "string \<Rightarrow> bool" where
  "plain s = (CHR '','' \<notin> set s \<and> CHR 0x0A \<notin> set s)"

definition plain_grouped :: "grouped \<Rightarrow> bool" where
  "plain_grouped g =
     list_all (\<lambda>((mid, bc), visit_ids).
        plain mid \<and> plain bc \<and> visit_ids \<noteq> [] \<and> list_all plain visit_ids) g"

text \<open>The line that \<^verbatim>\<open>write_output\<close> writes for the key \<open>k\<close> (L169-171), without its line
  feed.\<close>

definition output_line :: "grouped \<Rightarrow> string \<times> string \<Rightarrow> string" where
  "output_line g k =
     fst k @ '','' @ snd k @ '','' @ ''['' @ join '', '' (get_default g k []) @ '']''"

subsection \<open>The lines of the report\<close>

text \<open>The lines of a text: the pieces that its line feeds end, and what follows the last
  line feed when that is not empty.\<close>

definition lines_of :: "string \<Rightarrow> string list" where
  "lines_of text =
     (let pieces = split_on (CHR 0x0A) text
      in if last pieces = [] then butlast pieces else pieces)"

text \<open>A grouping of which no member\_id, barcode or visit\_id holds a line feed.\<close>

definition line_feed_free :: "grouped \<Rightarrow> bool" where
  "line_feed_free g =
     list_all (\<lambda>((mid, bc), visit_ids).
        CHR 0x0A \<notin> set mid \<and> CHR 0x0A \<notin> set bc
        \<and> list_all (\<lambda>v. CHR 0x0A \<notin> set v) visit_ids) g"

section \<open>Properties\<close>

subsection \<open>The loop of validate\_and\_group\_visits\<close>

lemma validate_loop_reject:
  "\<not> passes_barcode_checks members v \<Longrightarrow>
     validate_loop members (v # visits) g w log = validate_loop members visits g w (log @ [rejection v])"
  by (auto simp: passes_barcode_checks_def rejection_def split: option.splits)

lemma validate_loop_accept:
  "passes_barcode_checks members v \<Longrightarrow>
     validate_loop members (v # visits) g w log =
       validate_loop members visits (append_visit members v g)
         (if reservation_id v = None then w + 1 else w) log"
  by (auto simp: passes_barcode_checks_def append_visit_def group_key_def get_default_def
      split: option.splits)

lemma sum_of_lengths_update:
  "sum_of_lengths (AList.update k (get_default g k [] @ [x]) g) = sum_of_lengths g + 1"
  unfolding sum_of_lengths_def by (induction g) (auto simp: get_default_def)

lemma get_default_update:
  "get_default (AList.update k v g) k' d = (if k' = k then v else get_default g k' d)"
  by (simp add: get_default_def update_conv')

lemma validate_loop_total:
  "validate_loop members visits g w log = (g', w', log') \<Longrightarrow>
     sum_of_lengths g' = sum_of_lengths g + int (length (filter (passes_barcode_checks members) visits))"
proof (induction visits arbitrary: g w log)
  case Nil
  then show ?case by simp
next
  case (Cons v visits)
  show ?case
  proof (cases "passes_barcode_checks members v")
    case True
    with Cons.prems have "validate_loop members visits (append_visit members v g)
         (if reservation_id v = None then w + 1 else w) log = (g', w', log')"
      by (simp only: validate_loop_accept)
    from Cons.IH[OF this] True show ?thesis
      by (simp add: append_visit_def sum_of_lengths_update)
  next
    case False
    with Cons.prems have "validate_loop members visits g w (log @ [rejection v]) = (g', w', log')"
      by (simp add: validate_loop_reject del: validate_loop.simps)
    from Cons.IH[OF this] False show ?thesis by simp
  qed
qed

lemma validate_loop_walk_ins:
  "validate_loop members visits g w log = (g', w', log') \<Longrightarrow>
     w' = w + int (length (filter (is_walk_in members) visits))"
proof (induction visits arbitrary: g w log)
  case Nil
  then show ?case by simp
next
  case (Cons v visits)
  show ?case
  proof (cases "passes_barcode_checks members v")
    case True
    with Cons.prems have "validate_loop members visits (append_visit members v g)
         (if reservation_id v = None then w + 1 else w) log = (g', w', log')"
      by (simp only: validate_loop_accept)
    from Cons.IH[OF this] True show ?thesis by (simp add: is_walk_in_def)
  next
    case False
    with Cons.prems have "validate_loop members visits g w (log @ [rejection v]) = (g', w', log')"
      by (simp add: validate_loop_reject del: validate_loop.simps)
    from Cons.IH[OF this] False show ?thesis by (simp add: is_walk_in_def)
  qed
qed

lemma validate_loop_contents:
  "validate_loop members visits g w log = (g', w', log') \<Longrightarrow>
     get_default g' k [] = get_default g k [] @ map visit_id (filter (filed_under members k) visits)"
proof (induction visits arbitrary: g w log)
  case Nil
  then show ?case by simp
next
  case (Cons v visits)
  show ?case
  proof (cases "passes_barcode_checks members v")
    case True
    with Cons.prems have "validate_loop members visits (append_visit members v g)
         (if reservation_id v = None then w + 1 else w) log = (g', w', log')"
      by (simp only: validate_loop_accept)
    from Cons.IH[OF this] True show ?thesis
      by (simp add: append_visit_def get_default_update filed_under_def)
  next
    case False
    with Cons.prems have "validate_loop members visits g w (log @ [rejection v]) = (g', w', log')"
      by (simp add: validate_loop_reject del: validate_loop.simps)
    from Cons.IH[OF this] False show ?thesis by (simp add: filed_under_def)
  qed
qed

lemma nonempty_update:
  "\<forall>(k, vs)\<in>set g. vs \<noteq> [] \<Longrightarrow> v \<noteq> [] \<Longrightarrow> \<forall>(k, vs)\<in>set (AList.update k' v g). vs \<noteq> []"
  by (induction g) auto

lemma validate_loop_nonempty:
  "validate_loop members visits g w log = (g', w', log') \<Longrightarrow> \<forall>(k, vs)\<in>set g. vs \<noteq> []
    \<Longrightarrow> \<forall>(k, vs)\<in>set g'. vs \<noteq> []"
proof (induction visits arbitrary: g w log)
  case Nil
  then show ?case by simp
next
  case (Cons v visits)
  show ?case
  proof (cases "passes_barcode_checks members v")
    case True
    have "\<forall>(k, vs)\<in>set (append_visit members v g). vs \<noteq> []"
      unfolding append_visit_def using Cons.prems(2) by (intro nonempty_update) auto
    moreover from True Cons.prems(1) have "validate_loop members visits (append_visit members v g)
         (if reservation_id v = None then w + 1 else w) log = (g', w', log')"
      by (simp only: validate_loop_accept)
    ultimately show ?thesis by (rule Cons.IH[rotated])
  next
    case False
    with Cons.prems have "validate_loop members visits g w (log @ [rejection v]) = (g', w', log')"
      by (simp add: validate_loop_reject del: validate_loop.simps)
    then show ?thesis using Cons.prems(2) by (rule Cons.IH)
  qed
qed

lemma validate_loop_distinct:
  "validate_loop members visits g w log = (g', w', log') \<Longrightarrow> distinct (map fst g)
    \<Longrightarrow> distinct (map fst g')"
proof (induction visits arbitrary: g w log)
  case Nil
  then show ?case by simp
next
  case (Cons v visits)
  show ?case
  proof (cases "passes_barcode_checks members v")
    case True
    have "distinct (map fst (append_visit members v g))"
      unfolding append_visit_def using Cons.prems(2) by (rule distinct_update)
    moreover from True Cons.prems(1) have "validate_loop members visits (append_visit members v g)
         (if reservation_id v = None then w + 1 else w) log = (g', w', log')"
      by (simp only: validate_loop_accept)
    ultimately show ?thesis by (rule Cons.IH[rotated])
  next
    case False
    with Cons.prems have "validate_loop members visits g w (log @ [rejection v]) = (g', w', log')"
      by (simp add: validate_loop_reject del: validate_loop.simps)
    then show ?thesis using Cons.prems(2) by (rule Cons.IH)
  qed
qed

text \<open>The grouping and the counter are those of the visits that pass; the log holds one
  warning for each visit that does not.\<close>

lemma validate_loop_filter:
  "fst (validate_loop members visits g w log)
     = fst (validate_loop members (filter (passes_barcode_checks members) visits) g w log')
   \<and> fst (snd (validate_loop members visits g w log))
     = fst (snd (validate_loop members (filter (passes_barcode_checks members) visits) g w log'))"
proof (induction visits arbitrary: g w log log')
  case Nil
  then show ?case by simp
next
  case (Cons v visits)
  show ?case
  proof (cases "passes_barcode_checks members v")
    case True
    then show ?thesis using Cons.IH by (simp add: validate_loop_accept del: validate_loop.simps)
  next
    case False
    then show ?thesis using Cons.IH by (simp add: validate_loop_reject del: validate_loop.simps)
  qed
qed

lemma validate_loop_log:
  "snd (snd (validate_loop members visits g w log))
     = log @ map rejection (filter (\<lambda>v. \<not> passes_barcode_checks members v) visits)"
proof (induction visits arbitrary: g w log)
  case Nil
  then show ?case by simp
next
  case (Cons v visits)
  show ?case
  proof (cases "passes_barcode_checks members v")
    case True
    then show ?thesis using Cons.IH by (simp add: validate_loop_accept del: validate_loop.simps)
  next
    case False
    then show ?thesis using Cons.IH by (simp add: validate_loop_reject del: validate_loop.simps)
  qed
qed

subsection \<open>The loops of build\_summary and print\_top\_members\<close>

lemma summary_loop_total:
  "snd (summary_loop g vpm t) = t + sum_of_lengths g"
  unfolding sum_of_lengths_def by (induction g vpm t rule: summary_loop.induct) (simp_all add: Let_def)

lemma summary_loop_visits_per_member:
  "fst (summary_loop g vpm t) = visits_per_member_loop g vpm"
  by (induction g vpm t rule: summary_loop.induct) (simp_all add: Let_def)

lemma total_valid_visits_build_summary:
  "total_valid_visits (build_summary now g w top_n) = sum_of_lengths g"
  using summary_loop_total[of g "[]" 0] by (simp add: build_summary_def split_beta Let_def)

lemma top_members_build_summary:
  "top_members (build_summary now g w top_n) = slice_upto (rank (visits_per_member_loop g [])) top_n"
  using summary_loop_visits_per_member[of g "[]" 0] by (simp add: build_summary_def split_beta Let_def)

lemma passes_iff_known:
  "\<forall>m\<in>snd ` set members. m \<noteq> [] \<Longrightarrow>
     passes_barcode_checks members v = has_known_barcode members v"
  unfolding passes_barcode_checks_def has_known_barcode_def
  by (force simp: map_of_eq_None_iff[symmetric] split: option.splits dest!: map_of_SomeD)

lemma walk_ins_le_passing:
  "length (filter (is_walk_in members) visits) \<le> length (filter (passes_barcode_checks members) visits)"
  by (induction visits) (simp_all add: is_walk_in_def)

subsection \<open>Total valid visits\<close>

text \<open>
  C2, as stated, fails. With the member mapping \<open>{"b1": ""}\<close> and the single visit
  \<open>("v1", "b1", None)\<close>, the barcode is non-empty and a key of the mapping, yet the guard
  \<^verbatim>\<open>not member_id\<close> (L141) rejects the visit: nothing is grouped and the total is 0, while
  one visit has a non-empty barcode that is present in the mapping.
\<close>

theorem total_valid_visits_known_barcodes_counterexample:
  "total_valid_visits
     (build_summary ''2026-01-01T00:00:00+00:00''
        (fst (validate_and_group_visits [(''b1'', [])] [Visit ''v1'' ''b1'' None]))
        (fst (snd (validate_and_group_visits [(''b1'', [])] [Visit ''v1'' ''b1'' None]))) 5) = 0
   \<and> int (length (filter (has_known_barcode [(''b1'', [])]) [Visit ''v1'' ''b1'' None])) = 1"
  by (simp add: validate_and_group_visits_def build_summary_def has_known_barcode_def)

text \<open>
  C2, amended. For every member mapping and visit list, the \<open>total_valid_visits\<close> that
  \<open>build_summary\<close> reports on the grouping of \<open>validate_and_group_visits\<close> is the sum of the
  lengths of all grouped visit-id sequences, and this is the number of input visits that
  pass both barcode checks of the code: the barcode is non-empty and the mapping sends it
  to a non-empty member\_id. When no member\_id of the mapping is empty, this is the number
  of visits whose barcode is non-empty and present in the mapping.
\<close>

theorem total_valid_visits_counts_passing_visits:
  "validate_and_group_visits members visits = (g, w, log) \<Longrightarrow>
     total_valid_visits (build_summary now g w top_n) = sum_of_lengths g
   \<and> sum_of_lengths g = int (length (filter (passes_barcode_checks members) visits))
   \<and> ((\<forall>m\<in>snd ` set members. m \<noteq> []) \<longrightarrow>
        sum_of_lengths g = int (length (filter (has_known_barcode members) visits)))"
proof -
  assume a: "validate_and_group_visits members visits = (g, w, log)"
  then have "sum_of_lengths g = int (length (filter (passes_barcode_checks members) visits))"
    using validate_loop_total[of members visits "[]" 0 "[]" g w log]
    by (simp add: validate_and_group_visits_def sum_of_lengths_def)
  moreover have "(\<forall>m\<in>snd ` set members. m \<noteq> []) \<Longrightarrow>
      filter (passes_barcode_checks members) visits = filter (has_known_barcode members) visits"
    by (rule filter_cong) (simp_all add: passes_iff_known)
  ultimately show ?thesis
    by (simp add: total_valid_visits_build_summary)
qed

theorem total_valid_visits_counts_passing_visits_witness:
  "validate_and_group_visits [(''b1'', ''m1''), (''b2'', ''m2'')]
     [Visit ''v1'' ''b1'' None, Visit ''v2'' ''b1'' (Some ''r1''),
      Visit ''v3'' ''b2'' (Some ''r2''), Visit ''v4'' ''bx'' None]
     = ([((''m1'', ''b1''), [''v1'', ''v2'']), ((''m2'', ''b2''), [''v3''])], 1,
        [Unknown_barcode ''v4'' ''bx''])
   \<and> [] \<notin> snd ` set [(''b1'', ''m1''), (''b2'', ''m2'')]
   \<and> total_valid_visits
       (build_summary ''2026-01-01T00:00:00+00:00''
          [((''m1'', ''b1''), [''v1'', ''v2'']), ((''m2'', ''b2''), [''v3''])] 1 5) = 3
   \<and> int (length (filter (has_known_barcode [(''b1'', ''m1''), (''b2'', ''m2'')])
       [Visit ''v1'' ''b1'' None, Visit ''v2'' ''b1'' (Some ''r1''),
        Visit ''v3'' ''b2'' (Some ''r2''), Visit ''v4'' ''bx'' None])) = 3"
proof -
  have h: "validate_and_group_visits [(''b1'', ''m1''), (''b2'', ''m2'')]
     [Visit ''v1'' ''b1'' None, Visit ''v2'' ''b1'' (Some ''r1''),
      Visit ''v3'' ''b2'' (Some ''r2''), Visit ''v4'' ''bx'' None]
     = ([((''m1'', ''b1''), [''v1'', ''v2'']), ((''m2'', ''b2''), [''v3''])], 1,
        [Unknown_barcode ''v4'' ''bx''])"
    by (simp add: validate_and_group_visits_def get_default_def)
  have m: "\<forall>m\<in>snd ` set [(''b1'', ''m1''), (''b2'', ''m2'')]. m \<noteq> []"
    by simp
  from total_valid_visits_counts_passing_visits[OF h, of "''2026-01-01T00:00:00+00:00''" 5] h m
  show ?thesis by (simp add: sum_of_lengths_def)
qed

subsection \<open>Walk-ins\<close>

text \<open>
  C3. For every member mapping and visit list, the \<open>walk_in_count\<close> returned by
  \<open>validate_and_group_visits\<close> is the number of visits that were appended into the grouping
  and whose reservation\_id is absent. The visits appended under a key are exactly the
  visits that pass both checks and are filed under that key, in input order; a visit
  rejected for a missing or unknown barcode affects neither the grouping nor the counter:
  the run on the passing visits alone returns the same grouping and the same counter.
\<close>

theorem walk_in_count_counts_filed_walk_ins:
  "validate_and_group_visits members visits = (g, w, log) \<Longrightarrow>
     w = int (length (filter (is_walk_in members) visits))
   \<and> (\<forall>k. get_default g k [] = map visit_id (filter (filed_under members k) visits))
   \<and> validate_and_group_visits members (filter (passes_barcode_checks members) visits) = (g, w, [])"
proof -
  assume a: "validate_and_group_visits members visits = (g, w, log)"
  have 1: "w = int (length (filter (is_walk_in members) visits))"
    using validate_loop_walk_ins[of members visits "[]" 0 "[]" g w log] a
    by (simp add: validate_and_group_visits_def)
  have 2: "get_default g k [] = map visit_id (filter (filed_under members k) visits)" for k
    using validate_loop_contents[of members visits "[]" 0 "[]" g w log k] a
    by (simp add: validate_and_group_visits_def get_default_def)
  let ?r = "validate_loop members (filter (passes_barcode_checks members) visits) [] 0 []"
  have "fst ?r = g" "fst (snd ?r) = w"
    using validate_loop_filter[of members visits "[]" 0 "[]" "[]"] a
    by (simp_all add: validate_and_group_visits_def)
  moreover have "snd (snd ?r) = []"
    by (simp add: validate_loop_log)
  ultimately have 3:
    "validate_and_group_visits members (filter (passes_barcode_checks members) visits) = (g, w, [])"
    unfolding validate_and_group_visits_def by (metis prod.collapse)
  from 1 2 3 show ?thesis by blast
qed

theorem walk_in_count_counts_filed_walk_ins_witness:
  "validate_and_group_visits [(''b1'', ''m1''), (''b2'', ''m2'')]
     [Visit ''v1'' ''b1'' None, Visit ''v2'' ''b1'' (Some ''r1''),
      Visit ''v3'' ''b2'' (Some ''r2''), Visit ''v4'' ''bx'' None]
     = ([((''m1'', ''b1''), [''v1'', ''v2'']), ((''m2'', ''b2''), [''v3''])], 1,
        [Unknown_barcode ''v4'' ''bx''])
   \<and> (1::int) = int (length (filter (is_walk_in [(''b1'', ''m1''), (''b2'', ''m2'')])
       [Visit ''v1'' ''b1'' None, Visit ''v2'' ''b1'' (Some ''r1''),
        Visit ''v3'' ''b2'' (Some ''r2''), Visit ''v4'' ''bx'' None]))"
proof -
  have h: "validate_and_group_visits [(''b1'', ''m1''), (''b2'', ''m2'')]
     [Visit ''v1'' ''b1'' None, Visit ''v2'' ''b1'' (Some ''r1''),
      Visit ''v3'' ''b2'' (Some ''r2''), Visit ''v4'' ''bx'' None]
     = ([((''m1'', ''b1''), [''v1'', ''v2'']), ((''m2'', ''b2''), [''v3''])], 1,
        [Unknown_barcode ''v4'' ''bx''])"
    by (simp add: validate_and_group_visits_def get_default_def)
  from walk_in_count_counts_filed_walk_ins[OF h] h show ?thesis by blast
qed

subsection \<open>A barcode mapped to the empty member id\<close>

text \<open>
  C8, as stated, fails. With the member mapping \<open>{"": ""}\<close> and the visit
  \<open>("v1", "", None)\<close>, the barcode of the visit is a key of the mapping with the empty
  string as member\_id, yet the visit is not rejected as an unknown barcode: the guard
  \<^verbatim>\<open>not v.barcode\<close> (L133) runs before the lookup of L140 and rejects it as a missing
  barcode.
\<close>

theorem empty_barcode_rejected_as_missing_counterexample:
  "map_of [([], [])] (barcode (Visit ''v1'' [] None)) = Some []
   \<and> validate_and_group_visits [([], [])] [Visit ''v1'' [] None]
       = ([], 0, [Missing_barcode ''v1''])"
  by (simp add: validate_and_group_visits_def)

text \<open>
  C8, amended. For every member mapping and visit list, a visit whose barcode is a key of
  the mapping with the empty string as member\_id is rejected, even though the key is
  present: it enters neither the grouping nor the walk-in counter, which are what they
  are without that visit, and it adds one warning to the log. The visit is rejected as an
  unknown barcode when its barcode is non-empty, and as a missing barcode when its barcode
  is itself the empty string.
\<close>

theorem empty_member_id_rejected:
  "map_of members (barcode v) = Some [] \<Longrightarrow>
     fst (validate_and_group_visits members (before @ v # after))
       = fst (validate_and_group_visits members (before @ after))
   \<and> fst (snd (validate_and_group_visits members (before @ v # after)))
       = fst (snd (validate_and_group_visits members (before @ after)))
   \<and> snd (snd (validate_and_group_visits members (before @ v # after)))
       = snd (snd (validate_and_group_visits members before))
         @ [if barcode v = [] then Missing_barcode (visit_id v)
            else Unknown_barcode (visit_id v) (barcode v)]
         @ snd (snd (validate_and_group_visits members after))"
proof -
  assume a: "map_of members (barcode v) = Some []"
  then have np: "\<not> passes_barcode_checks members v"
    by (simp add: passes_barcode_checks_def)
  then have f: "filter (passes_barcode_checks members) (before @ v # after)
      = filter (passes_barcode_checks members) (before @ after)"
    by simp
  have g: "fst (validate_and_group_visits members (before @ v # after))
       = fst (validate_and_group_visits members (before @ after))"
    unfolding validate_and_group_visits_def
    using validate_loop_filter[of members "before @ v # after" "[]" 0 "[]" "[]"]
      validate_loop_filter[of members "before @ after" "[]" 0 "[]" "[]"]
    by (simp only: f)
  have w: "fst (snd (validate_and_group_visits members (before @ v # after)))
       = fst (snd (validate_and_group_visits members (before @ after)))"
    unfolding validate_and_group_visits_def
    using validate_loop_filter[of members "before @ v # after" "[]" 0 "[]" "[]"]
      validate_loop_filter[of members "before @ after" "[]" 0 "[]" "[]"]
    by (simp only: f)
  have "snd (snd (validate_and_group_visits members (before @ v # after)))
       = snd (snd (validate_and_group_visits members before))
         @ [if barcode v = [] then Missing_barcode (visit_id v)
            else Unknown_barcode (visit_id v) (barcode v)]
         @ snd (snd (validate_and_group_visits members after))"
    using np by (simp add: validate_and_group_visits_def validate_loop_log rejection_def)
  with g w show ?thesis by blast
qed

theorem empty_member_id_rejected_witness:
  "map_of [(''b1'', []), (''b2'', ''m2'')] (barcode (Visit ''v2'' ''b1'' None)) = Some []
   \<and> barcode (Visit ''v2'' ''b1'' None) \<noteq> []
   \<and> fst (validate_and_group_visits [(''b1'', []), (''b2'', ''m2'')]
        ([Visit ''v1'' ''b2'' None] @ Visit ''v2'' ''b1'' None # [Visit ''v3'' ''b2'' (Some ''r3'')]))
       = [((''m2'', ''b2''), [''v1'', ''v3''])]
   \<and> fst (snd (validate_and_group_visits [(''b1'', []), (''b2'', ''m2'')]
        ([Visit ''v1'' ''b2'' None] @ Visit ''v2'' ''b1'' None # [Visit ''v3'' ''b2'' (Some ''r3'')])))
       = 1
   \<and> snd (snd (validate_and_group_visits [(''b1'', []), (''b2'', ''m2'')]
        ([Visit ''v1'' ''b2'' None] @ Visit ''v2'' ''b1'' None # [Visit ''v3'' ''b2'' (Some ''r3'')])))
       = [Unknown_barcode ''v2'' ''b1'']"
proof -
  have h: "map_of [(''b1'', []), (''b2'', ''m2'')] (barcode (Visit ''v2'' ''b1'' None)) = Some []"
    by simp
  have r: "validate_and_group_visits [(''b1'', []), (''b2'', ''m2'')]
        ([Visit ''v1'' ''b2'' None] @ [Visit ''v3'' ''b2'' (Some ''r3'')])
       = ([((''m2'', ''b2''), [''v1'', ''v3''])], 1, [])"
    by (simp add: validate_and_group_visits_def get_default_def)
  from empty_member_id_rejected[OF h,
      of "[Visit ''v1'' ''b2'' None]" "[Visit ''v3'' ''b2'' (Some ''r3'')]"] h r
  show ?thesis by (simp add: validate_and_group_visits_def get_default_def)
qed

subsection \<open>Invariants of the grouping\<close>

text \<open>
  C9. For every member mapping and visit list, every GroupKey present in the grouping
  returned by \<open>validate_and_group_visits\<close> has a non-empty visit\_id sequence.
\<close>

theorem grouped_sequences_nonempty:
  "validate_and_group_visits members visits = (g, w, log) \<Longrightarrow> \<forall>(k, vs)\<in>set g. vs \<noteq> []"
  unfolding validate_and_group_visits_def by (erule validate_loop_nonempty) simp

theorem grouped_sequences_nonempty_witness:
  "validate_and_group_visits [(''b1'', ''m1''), (''b2'', ''m2'')]
     [Visit ''v1'' ''b1'' None, Visit ''v2'' ''b1'' (Some ''r1''),
      Visit ''v3'' ''b2'' (Some ''r2''), Visit ''v4'' ''bx'' None]
     = ([((''m1'', ''b1''), [''v1'', ''v2'']), ((''m2'', ''b2''), [''v3''])], 1,
        [Unknown_barcode ''v4'' ''bx''])
   \<and> [] \<notin> snd ` set [((''m1'', ''b1''), [''v1'', ''v2'']), ((''m2'', ''b2''), [''v3''])]"
proof -
  have h: "validate_and_group_visits [(''b1'', ''m1''), (''b2'', ''m2'')]
     [Visit ''v1'' ''b1'' None, Visit ''v2'' ''b1'' (Some ''r1''),
      Visit ''v3'' ''b2'' (Some ''r2''), Visit ''v4'' ''bx'' None]
     = ([((''m1'', ''b1''), [''v1'', ''v2'']), ((''m2'', ''b2''), [''v3''])], 1,
        [Unknown_barcode ''v4'' ''bx''])"
    by (simp add: validate_and_group_visits_def get_default_def)
  from grouped_sequences_nonempty[OF h] h show ?thesis by simp
qed

text \<open>
  C10. For every member mapping and visit list, the \<open>walk_in_count\<close> returned by
  \<open>validate_and_group_visits\<close> is at most the sum of the lengths of all visit\_id
  sequences of the returned grouping.
\<close>

theorem walk_ins_le_total_valid:
  "validate_and_group_visits members visits = (g, w, log) \<Longrightarrow> w \<le> sum_of_lengths g"
proof -
  assume a: "validate_and_group_visits members visits = (g, w, log)"
  have "w = int (length (filter (is_walk_in members) visits))"
    using validate_loop_walk_ins[of members visits "[]" 0 "[]" g w log] a
    by (simp add: validate_and_group_visits_def)
  moreover have "sum_of_lengths g = int (length (filter (passes_barcode_checks members) visits))"
    using validate_loop_total[of members visits "[]" 0 "[]" g w log] a
    by (simp add: validate_and_group_visits_def sum_of_lengths_def)
  ultimately show ?thesis
    using walk_ins_le_passing[of members visits] by simp
qed

theorem walk_ins_le_total_valid_witness:
  "validate_and_group_visits [(''b1'', ''m1''), (''b2'', ''m2'')]
     [Visit ''v1'' ''b1'' None, Visit ''v2'' ''b1'' (Some ''r1''),
      Visit ''v3'' ''b2'' (Some ''r2''), Visit ''v4'' ''bx'' None]
     = ([((''m1'', ''b1''), [''v1'', ''v2'']), ((''m2'', ''b2''), [''v3''])], 1,
        [Unknown_barcode ''v4'' ''bx''])
   \<and> (1::int) \<le> sum_of_lengths [((''m1'', ''b1''), [''v1'', ''v2'']), ((''m2'', ''b2''), [''v3''])]"
proof -
  have h: "validate_and_group_visits [(''b1'', ''m1''), (''b2'', ''m2'')]
     [Visit ''v1'' ''b1'' None, Visit ''v2'' ''b1'' (Some ''r1''),
      Visit ''v3'' ''b2'' (Some ''r2''), Visit ''v4'' ''bx'' None]
     = ([((''m1'', ''b1''), [''v1'', ''v2'']), ((''m2'', ''b2''), [''v3''])], 1,
        [Unknown_barcode ''v4'' ''bx''])"
    by (simp add: validate_and_group_visits_def get_default_def)
  from walk_ins_le_total_valid[OF h] h show ?thesis by blast
qed

subsection \<open>The ranking\<close>

lemma vpm_loop_distinct:
  "distinct (map fst vpm) \<Longrightarrow> distinct (map fst (visits_per_member_loop g vpm))"
  by (induction g vpm rule: visits_per_member_loop.induct) (simp_all add: distinct_update)

lemma vpm_loop_keys:
  "fst ` set (visits_per_member_loop g vpm) = fst ` set vpm \<union> (fst \<circ> fst) ` set g"
  by (induction g vpm rule: visits_per_member_loop.induct) (auto simp: dom_update)

lemma vpm_loop_total:
  "get_default (visits_per_member_loop g vpm) m 0 = get_default vpm m 0 + member_total g m"
  by (induction g vpm rule: visits_per_member_loop.induct)
     (simp_all add: member_total_def get_default_update)

lemma set_vpm_loop:
  "set (visits_per_member_loop g []) = {(m, member_total g m) | m. m \<in> (fst \<circ> fst) ` set g}"
proof -
  let ?R = "visits_per_member_loop g []"
  have d: "distinct (map fst ?R)" by (simp add: vpm_loop_distinct)
  have k: "fst ` set ?R = (fst \<circ> fst) ` set g" by (simp add: vpm_loop_keys)
  have t: "get_default ?R m 0 = member_total g m" for m
    using vpm_loop_total[of g "[]" m] by (simp add: get_default_def)
  show ?thesis
  proof (intro set_eqI iffI)
    fix x assume x: "x \<in> set ?R"
    obtain m c where mc: "x = (m, c)" by (cases x)
    with x d have "map_of ?R m = Some c" by simp
    then have "get_default ?R m 0 = c" by (simp add: get_default_def)
    with t have "c = member_total g m" by simp
    moreover from x mc k have "m \<in> (fst \<circ> fst) ` set g" by force
    ultimately show "x \<in> {(m, member_total g m) | m. m \<in> (fst \<circ> fst) ` set g}"
      using mc by blast
  next
    fix x assume "x \<in> {(m, member_total g m) | m. m \<in> (fst \<circ> fst) ` set g}"
    then obtain m where m: "x = (m, member_total g m)" "m \<in> (fst \<circ> fst) ` set g" by blast
    with k have "m \<in> fst ` set ?R" by simp
    then obtain c where c: "(m, c) \<in> set ?R" by force
    with d have "map_of ?R m = Some c" by simp
    then have "get_default ?R m 0 = c" by (simp add: get_default_def)
    with t have "c = member_total g m" by simp
    with c m show "x \<in> set ?R" by simp
  qed
qed

lemma rank_sorted:
  assumes "distinct (map fst vpm)"
  shows "sorted_wrt ranks_before (rank vpm)"
proof -
  let ?key = "\<lambda>item :: string \<times> int. (- snd item, fst item)"
  have "distinct (rank vpm)"
    unfolding rank_def using assms by (simp add: distinct_map)
  moreover have "inj_on fst (set (rank vpm))"
    unfolding rank_def using assms by (simp add: distinct_map)
  ultimately have "distinct (map ?key (rank vpm))"
    by (auto simp: distinct_map inj_on_def intro: prod_eqI)
  moreover have "sorted (map ?key (rank vpm))"
    unfolding rank_def by (rule sorted_sort_key)
  ultimately have "sorted_wrt (<) (map ?key (rank vpm))"
    by (simp add: strict_sorted_iff)
  then have "sorted_wrt (\<lambda>a b. ?key a < ?key b) (rank vpm)"
    by (simp add: sorted_wrt_map)
  then show ?thesis
    by (rule sorted_wrt_mono_rel[rotated]) (auto simp: ranks_before_def)
qed

lemma print_top_members_build_summary:
  "print_top_members g top_n =
     [''--------------------------------------------'',
      ''Top '' @ str_int top_n @ '' members by visits:'']
     @ map (\<lambda>(mid, count). mid @ '', '' @ str_int count) (top_members (build_summary now g w top_n))
     @ [''--------------------------------------------'']"
  by (simp add: print_top_members_def top_members_build_summary)

text \<open>
  C1, as stated, fails for a negative \<open>top_n\<close>. The ranking is cut by the slice
  \<^verbatim>\<open>[:top_n]\<close> (L224, L190), which drops the last \<open>-top_n\<close> entries when \<open>top_n\<close> is negative:
  two members and \<open>top_n = -1\<close> give a ranking of one entry, where the first \<open>-1\<close> entries of
  a list are none.
\<close>

theorem top_members_negative_top_n_counterexample:
  "top_members (build_summary ''2026-01-01T00:00:00+00:00''
      [((''m1'', ''b1''), [''v1'']), ((''m2'', ''b2''), [''v2''])] 0 (- 1)) = [(''m1'', 1)]
   \<and> take (nat (- 1)) (top_members (build_summary ''2026-01-01T00:00:00+00:00''
      [((''m1'', ''b1''), [''v1'']), ((''m2'', ''b2''), [''v2''])] 0 2)) = []"
  by (simp add: build_summary_def rank_def slice_upto_def get_default_def)

text \<open>
  C1, amended. For every grouping and every \<open>top_n\<close>, there is one ranking of the members:
  it lists each member\_id of the grouping once, with its total visit count, sorted by
  descending count with ties broken by ascending member\_id. The \<open>top_members\<close> of
  \<open>build_summary\<close> are its first \<open>top_n\<close> entries when \<open>top_n\<close> is not negative, and the
  ranking without its last \<open>-top_n\<close> entries when it is; in both cases of two members with
  equal count the one with the smaller member\_id comes first. \<open>print_top_members\<close> prints
  the same entries in the same order, one per line, between its header and footer.
\<close>

theorem top_members_ranking:
  "\<exists>ranking.
      sorted_wrt ranks_before ranking
    \<and> set ranking = {(m, member_total g m) | m. m \<in> (fst \<circ> fst) ` set g}
    \<and> top_members (build_summary now g w top_n)
        = (if 0 \<le> top_n then take (nat top_n) ranking
           else take (length ranking - nat (- top_n)) ranking)
    \<and> sorted_wrt ranks_before (top_members (build_summary now g w top_n))
    \<and> print_top_members g top_n =
        [''--------------------------------------------'',
         ''Top '' @ str_int top_n @ '' members by visits:'']
        @ map (\<lambda>(mid, count). mid @ '', '' @ str_int count)
            (top_members (build_summary now g w top_n))
        @ [''--------------------------------------------'']"
proof -
  let ?R = "rank (visits_per_member_loop g [])"
  have s: "sorted_wrt ranks_before ?R"
    by (rule rank_sorted) (simp add: vpm_loop_distinct)
  have e: "set ?R = {(m, member_total g m) | m. m \<in> (fst \<circ> fst) ` set g}"
    by (simp add: rank_def set_vpm_loop)
  have t: "top_members (build_summary now g w top_n)
        = (if 0 \<le> top_n then take (nat top_n) ?R else take (length ?R - nat (- top_n)) ?R)"
    by (simp add: top_members_build_summary slice_upto_def)
  have st: "sorted_wrt ranks_before (top_members (build_summary now g w top_n))"
    unfolding t using s by (simp add: sorted_wrt_take)
  from s e t st print_top_members_build_summary[of g top_n now w] show ?thesis
    by blast
qed

theorem top_members_ranking_witness:
  "top_members (build_summary ''2026-01-01T00:00:00+00:00''
      [((''m2'', ''b2''), [''v1'', ''v2'', ''v3'']), ((''m1'', ''b1''), [''v4'', ''v5'']),
       ((''m3'', ''b3''), [''v6'']), ((''m1'', ''b4''), [''v7''])] 0 2)
     = [(''m1'', 3), (''m2'', 3)]
   \<and> sorted_wrt ranks_before [(''m1'', 3), (''m2'', 3)]"
  using top_members_ranking[of
      "[((''m2'', ''b2''), [''v1'', ''v2'', ''v3'']), ((''m1'', ''b1''), [''v4'', ''v5'']),
        ((''m3'', ''b3''), [''v6'']), ((''m1'', ''b4''), [''v7''])]"
      "''2026-01-01T00:00:00+00:00''" 0 2]
  by (simp add: build_summary_def rank_def slice_upto_def get_default_def ranks_before_def)

subsection \<open>The tabular report\<close>

lemma write_rows_cong:
  "map_of g = map_of g' \<Longrightarrow> write_rows g keys f = write_rows g' keys f"
  by (induction g keys f rule: write_rows.induct) (auto split: option.splits)

lemma write_rows_present:
  "set keys \<subseteq> fst ` set g \<Longrightarrow>
     write_rows g keys f
       = Inr (f @ concat (map (\<lambda>k. output_row (fst k) (snd k) (get_default g k [])) keys))"
proof (induction g keys f rule: write_rows.induct)
  case (1 g f)
  then show ?case by simp
next
  case (2 g mid bc keys f)
  from "2.prems" have "(mid, bc) \<in> fst ` set g" by simp
  then obtain vs where vs: "map_of g (mid, bc) = Some vs"
    by (metis map_of_eq_None_iff not_Some_eq)
  with 2 show ?case by (simp add: get_default_def)
qed

lemma sort_keys_strict:
  "distinct (map fst g) \<Longrightarrow> sorted_wrt (<) (sort (map fst g))"
  by (simp add: strict_sorted_iff)

lemma sort_keys_permuted:
  assumes "distinct (map fst g)" "distinct (map fst g')" "set g' = set g"
  shows "sort (map fst g') = sort (map fst g)"
proof -
  have "set (sort (map fst g')) = set (sort (map fst g))" using assms(3) by simp
  then show ?thesis
    using assms(1,2) by (intro sorted_distinct_set_unique) simp_all
qed

subsection \<open>Trimming\<close>

lemma dropWhile_all_iff: "(\<forall>x\<in>set (dropWhile P xs). P x) \<longleftrightarrow> (\<forall>x\<in>set xs. P x)"
  by (induction xs) auto

lemma strip_empty_iff: "strip s = [] \<longleftrightarrow> whitespace_only s"
  by (simp add: strip_def whitespace_only_def dropWhile_eq_Nil_conv dropWhile_all_iff list_all_iff)

lemma rev_dropWhile_rev_hd:
  "rev (dropWhile P (rev xs)) \<noteq> [] \<Longrightarrow> hd (rev (dropWhile P (rev xs))) = hd xs"
proof -
  assume a: "rev (dropWhile P (rev xs)) \<noteq> []"
  have "rev xs = takeWhile P (rev xs) @ dropWhile P (rev xs)" by simp
  then have "xs = rev (dropWhile P (rev xs)) @ rev (takeWhile P (rev xs))"
    by (metis rev_append rev_rev_ident)
  then show ?thesis using a by (metis hd_append2)
qed

lemma strip_trimmed: "trimmed (strip s)"
proof (cases "strip s = []")
  case True
  then show ?thesis by (simp add: trimmed_def)
next
  case False
  let ?t = "dropWhile isspace s"
  from False have ne: "dropWhile isspace (rev ?t) \<noteq> []" by (simp add: strip_def)
  then have "?t \<noteq> []" by (metis dropWhile.simps(1) rev.simps(1))
  then have "\<not> isspace (hd ?t)" by (rule hd_dropWhile)
  moreover have "hd (strip s) = hd ?t"
    unfolding strip_def using ne by (intro rev_dropWhile_rev_hd) simp
  moreover have "last (strip s) = hd (dropWhile isspace (rev ?t))"
    unfolding strip_def using ne by (simp add: last_rev)
  moreover have "\<not> isspace (hd (dropWhile isspace (rev ?t)))"
    using ne by (rule hd_dropWhile)
  ultimately show ?thesis by (simp add: trimmed_def)
qed

subsection \<open>Loading the visits\<close>

lemma load_visits_loop_visits:
  "fst (load_visits_loop line_no rows visits log)
     = visits @ map (\<lambda>row. Visit (strip (get_or_empty row ''visit_id''))
                              (strip (get_or_empty row ''barcode''))
                              (if whitespace_only (get_or_empty row ''reservation_id'') then None
                               else Some (strip (get_or_empty row ''reservation_id''))))
                (filter (\<lambda>row. \<not> whitespace_only (get_or_empty row ''visit_id'')) rows)"
  by (induction rows arbitrary: line_no visits log) (simp_all add: Let_def strip_empty_iff)

text \<open>
  C7. For every visit input, the sequence returned by \<open>load_visits\<close> holds one record for
  each row whose visit\_id is not empty after trimming, in input order, and none for the
  other rows; every record has a non-empty, trimmed visit\_id; and the record of a row
  whose reservation\_id field is missing, empty or whitespace-only carries the absent
  value \<open>None\<close>, the other records the trimmed field.
\<close>

theorem load_visits_records:
  "fst (load_visits rows)
     = map (\<lambda>row. Visit (strip (get_or_empty row ''visit_id''))
                        (strip (get_or_empty row ''barcode''))
                        (if whitespace_only (get_or_empty row ''reservation_id'') then None
                         else Some (strip (get_or_empty row ''reservation_id''))))
         (filter (\<lambda>row. \<not> whitespace_only (get_or_empty row ''visit_id'')) rows)
   \<and> (\<forall>v\<in>set (fst (load_visits rows)). visit_id v \<noteq> [] \<and> trimmed (visit_id v))"
proof -
  have 1: "fst (load_visits rows)
     = map (\<lambda>row. Visit (strip (get_or_empty row ''visit_id''))
                        (strip (get_or_empty row ''barcode''))
                        (if whitespace_only (get_or_empty row ''reservation_id'') then None
                         else Some (strip (get_or_empty row ''reservation_id''))))
         (filter (\<lambda>row. \<not> whitespace_only (get_or_empty row ''visit_id'')) rows)"
    by (simp add: load_visits_def load_visits_loop_visits)
  have "visit_id v \<noteq> [] \<and> trimmed (visit_id v)" if "v \<in> set (fst (load_visits rows))" for v
    using that unfolding 1 by (auto simp: strip_empty_iff strip_trimmed)
  with 1 show ?thesis by blast
qed

theorem load_visits_records_witness:
  "fst (load_visits
      [[''visit_id'' \<mapsto> '' v1 '', ''barcode'' \<mapsto> ''b1'', ''reservation_id'' \<mapsto> ''  ''],
       [''visit_id'' \<mapsto> '' '', ''barcode'' \<mapsto> ''b2'', ''reservation_id'' \<mapsto> ''r2''],
       [''visit_id'' \<mapsto> ''v3'', ''barcode'' \<mapsto> ''b3'']])
     = [Visit ''v1'' ''b1'' None, Visit ''v3'' ''b3'' None]
   \<and> trimmed ''v1'' \<and> trimmed ''v3''"
  using load_visits_records[of
      "[[''visit_id'' \<mapsto> '' v1 '', ''barcode'' \<mapsto> ''b1'', ''reservation_id'' \<mapsto> ''  ''],
        [''visit_id'' \<mapsto> '' '', ''barcode'' \<mapsto> ''b2'', ''reservation_id'' \<mapsto> ''r2''],
        [''visit_id'' \<mapsto> ''v3'', ''barcode'' \<mapsto> ''b3'']]"]
  by (simp add: whitespace_only_def strip_def get_or_empty_def isspace_def trimmed_def)

subsection \<open>Loading the members\<close>

lemma load_members_loop_skip:
  "\<not> complete_member_row row \<Longrightarrow>
     load_members_loop n (row # rows) ending d log
       = load_members_loop (Suc n) rows ending d (log @ [Invalid_member_row n])"
  by (auto simp: complete_member_row_def row_member_id_def row_barcode_def Let_def)

lemma load_members_loop_duplicate:
  "complete_member_row row \<Longrightarrow> map_of d (row_barcode row) = Some existing \<Longrightarrow>
     load_members_loop n (row # rows) ending d log
       = load_members_loop (Suc n) rows ending d
           (log @ [Duplicate_barcode n (row_barcode row) existing (row_member_id row)])"
  by (auto simp: complete_member_row_def row_member_id_def row_barcode_def Let_def
      dest: map_of_SomeD intro: rev_image_eqI)

lemma load_members_loop_insert:
  "complete_member_row row \<Longrightarrow> map_of d (row_barcode row) = None \<Longrightarrow>
     load_members_loop n (row # rows) ending d log
       = load_members_loop (Suc n) rows ending
           (AList.update (row_barcode row) (row_member_id row) d) log"
  by (auto simp: complete_member_row_def row_member_id_def row_barcode_def Let_def
      map_of_eq_None_iff)

lemma first_complete_Cons_skip:
  "\<not> complete_member_row row \<Longrightarrow>
     first_complete_row_with b (row # rows) = first_complete_row_with b rows"
  by (simp add: first_complete_row_with_def)

lemma first_complete_Cons:
  "complete_member_row row \<Longrightarrow>
     first_complete_row_with b (row # rows)
       = (if row_barcode row = b then Some row else first_complete_row_with b rows)"
  by (simp add: first_complete_row_with_def)

text \<open>The rows never raise: the loop ends as the reader ends, with the mapping of the first
  complete rows.\<close>

lemma load_members_loop_result:
  "distinct (map fst d) \<Longrightarrow>
   \<exists>d' log'. load_members_loop n rows ending d log
        = ((case ending of None \<Rightarrow> Inr d' | Some e \<Rightarrow> Inl e), log')
      \<and> distinct (map fst d')
      \<and> (\<forall>b. map_of d' b = (case map_of d b of Some m \<Rightarrow> Some m
                 | None \<Rightarrow> map_option row_member_id (first_complete_row_with b rows)))"
proof (induction rows arbitrary: n d log)
  case Nil
  then show ?case
    by (cases ending) (auto simp: first_complete_row_with_def split: option.splits)
next
  case (Cons row rows)
  show ?case
  proof (cases "complete_member_row row")
    case False
    then have eq: "\<And>b. first_complete_row_with b (row # rows) = first_complete_row_with b rows"
      by (simp add: first_complete_Cons_skip)
    from False have sk: "load_members_loop n (row # rows) ending d log
        = load_members_loop (Suc n) rows ending d (log @ [Invalid_member_row n])"
      by (rule load_members_loop_skip)
    show ?thesis unfolding eq sk by (rule Cons.IH[OF Cons.prems])
  next
    case True
    show ?thesis
    proof (cases "map_of d (row_barcode row)")
      case (Some existing)
      from Cons.IH[OF Cons.prems, of "Suc n"
          "log @ [Duplicate_barcode n (row_barcode row) existing (row_member_id row)]"]
      obtain d' log' where r: "load_members_loop (Suc n) rows ending d
           (log @ [Duplicate_barcode n (row_barcode row) existing (row_member_id row)])
             = ((case ending of None \<Rightarrow> Inr d' | Some e \<Rightarrow> Inl e), log')"
        "distinct (map fst d')"
        "\<And>b. map_of d' b = (case map_of d b of Some m \<Rightarrow> Some m
                 | None \<Rightarrow> map_option row_member_id (first_complete_row_with b rows))"
        by blast
      have e: "map_of d' b = (case map_of d b of Some m \<Rightarrow> Some m
                 | None \<Rightarrow> map_option row_member_id (first_complete_row_with b (row # rows)))" for b
        using r(3)[of b] Some True
        by (auto simp: first_complete_Cons split: option.splits)
      show ?thesis
        unfolding load_members_loop_duplicate[OF True Some] using r(1,2) e by blast
    next
      case None
      let ?d = "AList.update (row_barcode row) (row_member_id row) d"
      have "distinct (map fst ?d)" using Cons.prems by (rule distinct_update)
      from Cons.IH[OF this, of "Suc n" log]
      obtain d' log' where r: "load_members_loop (Suc n) rows ending ?d log
             = ((case ending of None \<Rightarrow> Inr d' | Some e \<Rightarrow> Inl e), log')"
        "distinct (map fst d')"
        "\<And>b. map_of d' b = (case map_of ?d b of Some m \<Rightarrow> Some m
                 | None \<Rightarrow> map_option row_member_id (first_complete_row_with b rows))"
        by blast
      have e: "map_of d' b = (case map_of d b of Some m \<Rightarrow> Some m
                 | None \<Rightarrow> map_option row_member_id (first_complete_row_with b (row # rows)))" for b
        using r(3)[of b] None True
        by (auto simp: first_complete_Cons update_conv' split: option.splits)
      show ?thesis
        unfolding load_members_loop_insert[OF True None] using r(1,2) e by blast
    qed
  qed
qed

text \<open>
  C6, as stated, fails. Of the two rows \<open>("", "b1")\<close> and \<open>("m2", "b1")\<close>, which share the
  trimmed barcode \<open>b1\<close>, the first seen is rejected for its empty member\_id (L64) before
  the barcode is looked at, so the mapping retains the member\_id \<open>m2\<close> of the later row,
  and the later row is not dropped.
\<close>

theorem load_members_first_row_counterexample:
  "load_members (Opened [[''member_id'' \<mapsto> [], ''barcode'' \<mapsto> ''b1''],
                         [''member_id'' \<mapsto> ''m2'', ''barcode'' \<mapsto> ''b1'']] None)
     = (Inr [(''b1'', ''m2'')], [Invalid_member_row 2])
   \<and> map_option row_member_id
       (first_row_with ''b1'' [[''member_id'' \<mapsto> [], ''barcode'' \<mapsto> ''b1''],
                 [''member_id'' \<mapsto> ''m2'', ''barcode'' \<mapsto> ''b1'']]) = Some []"
  by (simp add: get_or_empty_def strip_def isspace_def first_row_with_def
      row_barcode_def row_member_id_def)

text \<open>
  C6, amended. For every member input, \<open>load_members\<close> is deterministic: what it returns
  or raises is a function of what the file gives. When the reader reads the input to its
  end, \<open>load_members\<close> returns a mapping, the same for the same input, and when several
  rows share the same trimmed barcode the mapping retains the member\_id of the first-seen
  row among those whose trimmed member\_id and barcode are both non-empty, while every
  later row with that barcode is dropped without raising an exception: the mapping sends
  each barcode to the trimmed member\_id of the first such row that has it, and holds no
  other barcode. When the file cannot be opened, or the reader raises after some rows,
  \<open>load_members\<close> raises that exception and returns no mapping.
\<close>

theorem load_members_first_complete_row:
  "\<exists>members log.
      load_members (Opened rows ending)
        = ((case ending of None \<Rightarrow> Inr members | Some e \<Rightarrow> Inl e), log)
    \<and> distinct (map fst members)
    \<and> (\<forall>b. map_of members b = map_option row_member_id (first_complete_row_with b rows))
    \<and> [] \<notin> fst ` set members \<and> [] \<notin> snd ` set members
    \<and> load_members (Unopened e') = (Inl e', [])"
proof -
  from load_members_loop_result[of "[]" 2 rows ending "[]"]
  obtain members log where r: "load_members (Opened rows ending)
        = ((case ending of None \<Rightarrow> Inr members | Some e \<Rightarrow> Inl e), log)"
    "distinct (map fst members)"
    "\<And>b. map_of members b = map_option row_member_id (first_complete_row_with b rows)"
    by auto
  have "b \<noteq> [] \<and> m \<noteq> []" if "(b, m) \<in> set members" for b m
  proof -
    from that r(2) have "map_of members b = Some m" by simp
    with r(3)[of b] obtain row where
      "first_complete_row_with b rows = Some row" "row_member_id row = m"
      by (cases "first_complete_row_with b rows") auto
    then show ?thesis
      by (auto simp: first_complete_row_with_def find_Some_iff complete_member_row_def)
  qed
  then have "[] \<notin> fst ` set members \<and> [] \<notin> snd ` set members" by force
  moreover have "load_members (Unopened e') = (Inl e', [])" by simp
  ultimately show ?thesis using r by blast
qed

theorem load_members_first_complete_row_witness:
  "load_members (Opened [[''member_id'' \<mapsto> ''m1'', ''barcode'' \<mapsto> ''b1''],
                         [''member_id'' \<mapsto> [], ''barcode'' \<mapsto> ''b2''],
                         [''member_id'' \<mapsto> ''m2'', ''barcode'' \<mapsto> []],
                         [''member_id'' \<mapsto> ''m3'', ''barcode'' \<mapsto> '' b1 '']] None)
     = (Inr [(''b1'', ''m1'')],
        [Invalid_member_row 3, Invalid_member_row 4, Duplicate_barcode 5 ''b1'' ''m1'' ''m3''])
   \<and> load_members (Opened [[''member_id'' \<mapsto> ''m1'', ''barcode'' \<mapsto> ''b1''],
                         [''member_id'' \<mapsto> [], ''barcode'' \<mapsto> ''b2'']] (Some CsvError))
     = (Inl CsvError, [Invalid_member_row 3])"
  using load_members_first_complete_row[of
      "[[''member_id'' \<mapsto> ''m1'', ''barcode'' \<mapsto> ''b1''],
        [''member_id'' \<mapsto> [], ''barcode'' \<mapsto> ''b2''],
        [''member_id'' \<mapsto> ''m2'', ''barcode'' \<mapsto> []],
        [''member_id'' \<mapsto> ''m3'', ''barcode'' \<mapsto> '' b1 '']]" None]
  by (simp add: get_or_empty_def strip_def isspace_def Let_def)

subsection \<open>Reading the tabular report back\<close>

lemma split_on_no_sep: "c \<notin> set s \<Longrightarrow> split_on c s = [s]"
  by (induction s) auto

lemma split_on_append: "c \<notin> set l \<Longrightarrow> split_on c (l @ c # rest) = l # split_on c rest"
  by (induction l) auto

lemma split_on_lines:
  "\<forall>l\<in>set ls. c \<notin> set l \<Longrightarrow> split_on c (concat (map (\<lambda>l. l @ [c]) ls)) = ls @ [[]]"
  by (induction ls) (simp_all add: split_on_append)

lemma split_first_append: "c \<notin> set l \<Longrightarrow> split_first c (l @ c # rest) = (l, rest)"
  by (induction l) (auto simp: split_first_def)

lemma split_on_join:
  "vs \<noteq> [] \<Longrightarrow> \<forall>v\<in>set vs. CHR '','' \<notin> set v \<Longrightarrow>
     split_on CHR '','' (join '', '' vs) = hd vs # map (\<lambda>v. CHR '' '' # v) (tl vs)"
proof (induction "'', ''" vs rule: join.induct)
  case 1
  then show ?case by simp
next
  case (2 x)
  then show ?case by (simp add: split_on_no_sep)
next
  case (3 x y ys)
  then have "split_on CHR '','' (join '', '' (y # ys)) = y # map (\<lambda>v. CHR '' '' # v) ys"
    by simp
  moreover have "join '', '' (x # y # ys) = x @ CHR '','' # (CHR '' '' # join '', '' (y # ys))"
    by simp
  ultimately show ?case using "3.prems"(2)
    by (simp add: split_on_append del: join.simps)
qed

lemma parse_visits_join:
  "vs \<noteq> [] \<Longrightarrow> \<forall>v\<in>set vs. CHR '','' \<notin> set v \<Longrightarrow>
     parse_visits (''['' @ join '', '' vs @ '']'') = vs"
  by (simp add: parse_visits_def split_on_join butlast_append map_idI comp_def)

lemma set_join: "set (join sep vs) \<subseteq> set sep \<union> \<Union>(set ` set vs)"
  by (induction sep vs rule: join.induct) auto

lemma parse_row_output_row:
  assumes "plain mid" "plain bc" "vs \<noteq> []" "list_all plain vs"
  shows "parse_row (mid @ '','' @ bc @ '','' @ ''['' @ join '', '' vs @ '']'') = ((mid, bc), vs)"
proof -
  from assms(4) have nc: "\<forall>v\<in>set vs. CHR '','' \<notin> set v"
    by (simp add: list_all_iff plain_def)
  have "split_first CHR '','' (mid @ '','' @ bc @ '','' @ ''['' @ join '', '' vs @ '']'')
      = (mid, bc @ '','' @ ''['' @ join '', '' vs @ '']'')"
    using assms(1) split_first_append[of "CHR '',''" mid] by (simp add: plain_def)
  moreover have "split_first CHR '','' (bc @ '','' @ ''['' @ join '', '' vs @ '']'')
      = (bc, ''['' @ join '', '' vs @ '']'')"
    using assms(2) split_first_append[of "CHR '',''" bc] by (simp add: plain_def)
  ultimately show ?thesis
    using parse_visits_join[OF assms(3) nc] by (simp add: parse_row_def)
qed

lemma output_line_no_newline:
  assumes "plain mid" "plain bc" "list_all plain vs"
  shows "CHR 0x0A \<notin> set (mid @ '','' @ bc @ '','' @ ''['' @ join '', '' vs @ '']'')"
proof -
  have "CHR 0x0A \<notin> set (join '', '' vs)"
    using set_join[of "'', ''" vs] assms(3) by (auto simp: list_all_iff plain_def)
  with assms(1,2) show ?thesis by (simp add: plain_def)
qed

lemma write_output_lines:
  "write_output g = Inr (concat (map (\<lambda>l. l @ [CHR 0x0A])
      (''member_id,barcode,visits'' # map (output_line g) (sort (map fst g)))))"
  unfolding write_output_def
  by (subst write_rows_present) (simp_all add: output_row_def output_line_def comp_def)

lemma plain_grouped_entry:
  assumes "distinct (map fst g)" "plain_grouped g" "k \<in> fst ` set g"
  shows "(k, get_default g k []) \<in> set g"
    and "plain (fst k)" and "plain (snd k)"
    and "get_default g k [] \<noteq> []" and "list_all plain (get_default g k [])"
proof -
  from assms(3) obtain vs where vs: "(k, vs) \<in> set g" by force
  with assms(1) have "map_of g k = Some vs" by simp
  then have e: "get_default g k [] = vs" by (simp add: get_default_def)
  with vs show "(k, get_default g k []) \<in> set g" by simp
  from assms(2) vs have "plain (fst k) \<and> plain (snd k) \<and> vs \<noteq> [] \<and> list_all plain vs"
    by (auto simp: plain_grouped_def list_all_iff)
  with e show "plain (fst k)" "plain (snd k)" "get_default g k [] \<noteq> []"
    "list_all plain (get_default g k [])" by simp_all
qed

lemma reparse_write_output:
  assumes "distinct (map fst g)" "plain_grouped g"
  shows "reparse_output (concat (map (\<lambda>l. l @ [CHR 0x0A])
      (''member_id,barcode,visits'' # map (output_line g) (sort (map fst g)))))
    = Some (map (\<lambda>k. (k, get_default g k [])) (sort (map fst g)))"
proof -
  let ?keys = "sort (map fst g)"
  let ?lines = "''member_id,barcode,visits'' # map (output_line g) ?keys"
  have k: "k \<in> fst ` set g" if "k \<in> set ?keys" for k using that by simp
  have "CHR 0x0A \<notin> set l" if "l \<in> set ?lines" for l
  proof (cases "l = ''member_id,barcode,visits''")
    case True
    then show ?thesis by simp
  next
    case False
    with that obtain k where kk: "k \<in> set ?keys" "l = output_line g k" by auto
    have "CHR 0x0A \<notin> set (output_line g k)"
      unfolding output_line_def
      by (rule output_line_no_newline[OF plain_grouped_entry(2,3,5)[OF assms k[OF kk(1)]]])
    with kk(2) show ?thesis by simp
  qed
  then have "split_on (CHR 0x0A) (concat (map (\<lambda>l. l @ [CHR 0x0A]) ?lines)) = ?lines @ [[]]"
    by (intro split_on_lines) blast
  moreover have "map parse_row (map (output_line g) ?keys)
      = map (\<lambda>k. (k, get_default g k [])) ?keys"
  proof -
    have "parse_row (output_line g k) = (k, get_default g k [])" if "k \<in> set ?keys" for k
      unfolding output_line_def
      using parse_row_output_row[OF plain_grouped_entry(2,3,4,5)[OF assms k[OF that]]]
      by simp
    then show ?thesis by simp
  qed
  ultimately show ?thesis
    by (simp add: reparse_output_def butlast_append del: split_on.simps)
qed

text \<open>
  C4, as stated, fails. The report writes the fields as they are, so two different
  groupings can have the same report, and no reader recovers both: the groupings
  \<open>{("a,b", "c"): ["v"]}\<close> and \<open>{("a", "b,c"): ["v"]}\<close> are both written as the header and the
  line \<open>a,b,c,[v]\<close>, which is read back as neither.
\<close>

theorem write_output_not_injective_counterexample:
  "write_output [((''a,b'', ''c''), [''v''])]
     = Inr (''member_id,barcode,visits'' @ [CHR 0x0A] @ ''a,b,c,[v]'' @ [CHR 0x0A])
   \<and> write_output [((''a'', ''b,c''), [''v''])]
     = Inr (''member_id,barcode,visits'' @ [CHR 0x0A] @ ''a,b,c,[v]'' @ [CHR 0x0A])
   \<and> [((''a,b'', ''c''), [''v''])] \<noteq> [((''a'', ''b,c''), [''v''])]
   \<and> reparse_output (''member_id,barcode,visits'' @ [CHR 0x0A] @ ''a,b,c,[v]'' @ [CHR 0x0A])
     = Some [((''a'', ''b''), [[], ''v''])]"
  by (simp add: write_output_def output_row_def reparse_output_def parse_row_def
      split_first_def parse_visits_def)

text \<open>
  C4, amended. For every grouping (a dictionary: no key twice) whose member\_ids, barcodes
  and visit\_ids hold neither a comma nor a line feed and whose visit\_id sequences are
  non-empty, \<open>write_output\<close> raises no exception, and reading its report back line by line
  (each line split at its first two commas, the bracketed list at its commas) recovers a
  dictionary with exactly the same (member\_id, barcode) keys and, for each key, the same
  visit\_id list in the same order.
\<close>

theorem write_output_round_trip:
  "distinct (map fst g) \<Longrightarrow> plain_grouped g \<Longrightarrow>
     \<exists>text rows. write_output g = Inr text \<and> reparse_output text = Some rows
        \<and> distinct (map fst rows) \<and> set rows = set g"
proof -
  assume d: "distinct (map fst g)" and p: "plain_grouped g"
  let ?rows = "map (\<lambda>k. (k, get_default g k [])) (sort (map fst g))"
  have "map fst ?rows = sort (map fst g)" by (simp add: comp_def)
  with d have 1: "distinct (map fst ?rows)" by simp
  have 2: "set ?rows = set g"
  proof (intro set_eqI iffI)
    fix x assume "x \<in> set ?rows"
    then obtain k where "k \<in> fst ` set g" "x = (k, get_default g k [])" by auto
    with plain_grouped_entry(1)[OF d p] show "x \<in> set g" by simp
  next
    fix x assume x: "x \<in> set g"
    then have k: "fst x \<in> fst ` set g" by simp
    from x d have "map_of g (fst x) = Some (snd x)" by simp
    then have "get_default g (fst x) [] = snd x" by (simp add: get_default_def)
    with k show "x \<in> set ?rows" by (auto simp: image_iff intro!: bexI[of _ x] prod_eqI x)
  qed
  from write_output_lines[of g] reparse_write_output[OF d p] 1 2 show ?thesis by blast
qed

theorem write_output_round_trip_witness:
  "distinct (map fst [((''m2'', ''b1''), [''v1'', ''v2'']), ((''m1'', ''b9''), [''v3''])])
   \<and> plain_grouped [((''m2'', ''b1''), [''v1'', ''v2'']), ((''m1'', ''b9''), [''v3''])]
   \<and> write_output [((''m2'', ''b1''), [''v1'', ''v2'']), ((''m1'', ''b9''), [''v3''])]
      = Inr (''member_id,barcode,visits'' @ [CHR 0x0A]
           @ ''m1,b9,[v3]'' @ [CHR 0x0A] @ ''m2,b1,[v1, v2]'' @ [CHR 0x0A])
   \<and> reparse_output (''member_id,barcode,visits'' @ [CHR 0x0A]
           @ ''m1,b9,[v3]'' @ [CHR 0x0A] @ ''m2,b1,[v1, v2]'' @ [CHR 0x0A])
      = Some [((''m1'', ''b9''), [''v3'']), ((''m2'', ''b1''), [''v1'', ''v2''])]"
proof -
  have d: "distinct (map fst [((''m2'', ''b1''), [''v1'', ''v2'']), ((''m1'', ''b9''), [''v3''])])"
    by simp
  have p: "plain_grouped [((''m2'', ''b1''), [''v1'', ''v2'']), ((''m1'', ''b9''), [''v3''])]"
    by (simp add: plain_grouped_def plain_def)
  from write_output_round_trip[OF d p] d p show ?thesis
    by (simp add: write_output_def output_row_def reparse_output_def parse_row_def
        split_first_def parse_visits_def)
qed

subsection \<open>The lines of the report\<close>

lemma line_feed_free_output_line:
  assumes "distinct (map fst g)" "line_feed_free g" "k \<in> fst ` set g"
  shows "CHR 0x0A \<notin> set (output_line g k)"
proof -
  from assms(3) obtain vs where vs: "(k, vs) \<in> set g" by force
  with assms(1) have "map_of g k = Some vs" by simp
  then have e: "get_default g k [] = vs" by (simp add: get_default_def)
  from assms(2) vs have f: "CHR 0x0A \<notin> set (fst k)" "CHR 0x0A \<notin> set (snd k)"
    "\<forall>v\<in>set vs. CHR 0x0A \<notin> set v"
    by (auto simp: line_feed_free_def list_all_iff)
  then have "CHR 0x0A \<notin> set (join '', '' vs)"
    using set_join[of "'', ''" vs] by auto
  with f(1,2) e show ?thesis by (simp add: output_line_def)
qed

lemma lines_of_ended_lines:
  "\<forall>l\<in>set ls. CHR 0x0A \<notin> set l \<Longrightarrow>
     lines_of (concat (map (\<lambda>l. l @ [CHR 0x0A]) ls)) = ls"
  by (simp add: lines_of_def split_on_lines del: split_on.simps)

text \<open>
  C5, as stated, fails. A field is written as it is, line feeds included, and a line feed
  inside a field (a quoted field of members.csv can hold one, and \<^verbatim>\<open>strip\<close> trims the ends
  only) breaks the record of its GroupKey into two lines: the grouping
  \<open>{("a\nb", "c"): ["v"]}\<close> has one GroupKey, and its report has two lines after the header,
  neither of the form member\_id,barcode,[...].
\<close>

theorem write_output_line_feed_counterexample:
  "write_output [((''a'' @ [CHR 0x0A] @ ''b'', ''c''), [''v''])]
     = Inr (''member_id,barcode,visits'' @ [CHR 0x0A]
            @ ''a'' @ [CHR 0x0A] @ ''b,c,[v]'' @ [CHR 0x0A])
   \<and> lines_of (''member_id,barcode,visits'' @ [CHR 0x0A]
            @ ''a'' @ [CHR 0x0A] @ ''b,c,[v]'' @ [CHR 0x0A])
     = [''member_id,barcode,visits'', ''a'', ''b,c,[v]'']"
  by (simp add: write_output_def output_row_def lines_of_def)

text \<open>
  C5, amended. For every grouping (a dictionary: no key twice) of which no member\_id,
  barcode or visit\_id holds a line feed, \<open>write_output\<close> writes a text of lines, each ended
  by a line feed: first the header line \<open>member_id,barcode,visits\<close>, then exactly one line
  per GroupKey, the keys in strictly ascending lexicographic order of (member\_id,
  barcode), whatever the insertion order of the dictionary; each line is the member\_id, a
  comma, the barcode, a comma, and the visit ids between brackets, separated by a comma
  and a blank, all of them written as they are, neither quoted nor escaped.
\<close>

theorem write_output_format:
  "distinct (map fst g) \<Longrightarrow> line_feed_free g \<Longrightarrow>
     \<exists>text keys.
        write_output g = Inr text
      \<and> text = concat (map (\<lambda>l. l @ [CHR 0x0A]) (lines_of text))
      \<and> lines_of text
          = ''member_id,barcode,visits''
            # map (\<lambda>(mid, bc).
                mid @ '','' @ bc @ '','' @ ''['' @ join '', '' (get_default g (mid, bc) []) @ '']'')
              keys
      \<and> sorted_wrt (<) keys
      \<and> set keys = fst ` set g
      \<and> (\<forall>g'. distinct (map fst g') \<and> set g' = set g \<longrightarrow> write_output g' = write_output g)"
proof -
  assume d: "distinct (map fst g)" and f: "line_feed_free g"
  let ?keys = "sort (map fst g)"
  let ?lines = "''member_id,barcode,visits'' # map (output_line g) ?keys"
  let ?text = "concat (map (\<lambda>l. l @ [CHR 0x0A]) ?lines)"
  have 1: "write_output g = Inr ?text" by (rule write_output_lines)
  have "CHR 0x0A \<notin> set l" if "l \<in> set ?lines" for l
  proof (cases "l = ''member_id,barcode,visits''")
    case True
    then show ?thesis by simp
  next
    case False
    with that obtain k where kk: "k \<in> set ?keys" "l = output_line g k" by auto
    from kk(1) have "k \<in> fst ` set g" by simp
    from line_feed_free_output_line[OF d f this] kk(2) show ?thesis by simp
  qed
  then have l: "lines_of ?text = ?lines"
    by (intro lines_of_ended_lines) blast
  have 2: "?text = concat (map (\<lambda>l. l @ [CHR 0x0A]) (lines_of ?text))"
    by (simp only: l)
  have ol: "output_line g
      = (\<lambda>(mid, bc).
          mid @ '','' @ bc @ '','' @ ''['' @ join '', '' (get_default g (mid, bc) []) @ '']'')"
    by (simp add: output_line_def fun_eq_iff)
  have 3: "lines_of ?text
      = ''member_id,barcode,visits''
        # map (\<lambda>(mid, bc).
            mid @ '','' @ bc @ '','' @ ''['' @ join '', '' (get_default g (mid, bc) []) @ '']'')
          ?keys"
    by (subst l) (simp only: ol)
  have 4: "sorted_wrt (<) ?keys" using d by (rule sort_keys_strict)
  have 5: "set ?keys = fst ` set g" by simp
  have 6: "write_output g' = write_output g" if "distinct (map fst g')" "set g' = set g" for g'
  proof -
    from that d have "map_of g' = map_of g" by (simp add: map_of_inject_set)
    moreover have "sort (map fst g') = sort (map fst g)" using d that by (rule sort_keys_permuted)
    ultimately show ?thesis
      unfolding write_output_def by (simp add: write_rows_cong[of g' g])
  qed
  from 1 2 3 4 5 6 show ?thesis by blast
qed

theorem write_output_format_witness:
  "distinct (map fst [((''m2'', ''b1''), [''v1'', ''v2'']), ((''m1'', ''b9''), [''v3'']),
      ((''m1'', ''b10''), [''v4''])])
  \<and> line_feed_free [((''m2'', ''b1''), [''v1'', ''v2'']), ((''m1'', ''b9''), [''v3'']),
      ((''m1'', ''b10''), [''v4''])]
  \<and> write_output [((''m2'', ''b1''), [''v1'', ''v2'']), ((''m1'', ''b9''), [''v3'']),
      ((''m1'', ''b10''), [''v4''])]
      = Inr (''member_id,barcode,visits'' @ [CHR 0x0A]
           @ ''m1,b10,[v4]'' @ [CHR 0x0A]
           @ ''m1,b9,[v3]'' @ [CHR 0x0A]
           @ ''m2,b1,[v1, v2]'' @ [CHR 0x0A])
  \<and> lines_of (''member_id,barcode,visits'' @ [CHR 0x0A]
           @ ''m1,b10,[v4]'' @ [CHR 0x0A]
           @ ''m1,b9,[v3]'' @ [CHR 0x0A]
           @ ''m2,b1,[v1, v2]'' @ [CHR 0x0A])
      = [''member_id,barcode,visits'', ''m1,b10,[v4]'', ''m1,b9,[v3]'', ''m2,b1,[v1, v2]'']"
proof -
  have d: "distinct (map fst [((''m2'', ''b1''), [''v1'', ''v2'']), ((''m1'', ''b9''), [''v3'']),
      ((''m1'', ''b10''), [''v4''])])"
    by simp
  have f: "line_feed_free [((''m2'', ''b1''), [''v1'', ''v2'']), ((''m1'', ''b9''), [''v3'']),
      ((''m1'', ''b10''), [''v4''])]"
    by (simp add: line_feed_free_def)
  from write_output_format[OF d f] d f show ?thesis
    by (simp add: write_output_def output_row_def lines_of_def)
qed

end
